theory Spec2Isabelle
  imports Complex_Main
begin

section \<open>Python values used by \<open>main.py\<close>\<close>

text \<open>
  A Python \<open>str\<close> is modelled as a \<open>string\<close>; a \<open>char\<close> stands for one code point
  below 256. Exceptions are values: the functions that can raise return \<open>exn + 'a\<close>,
  with \<open>Inl\<close> for the exception.
\<close>

datatype exn = IndexError | ValueError | OSError | OperationalError

text \<open>\<open>str.isspace\<close> on one character: the code points below 256 that Python treats
  as whitespace in \<open>str.split()\<close> and \<open>str.strip()\<close>.\<close>

definition isspace :: "char \<Rightarrow> bool" where
  "isspace c = (of_char c \<in> {9, 10, 11, 12, 13, 28, 29, 30, 31, 32, 133, 160 :: nat})"

text \<open>\<open>line.split()\<close> without argument: runs of whitespace separate the tokens, and
  no token is empty. \<open>split_from cur s\<close> scans \<open>s\<close> with the token read so far in \<open>cur\<close>.\<close>

fun split_from :: "string \<Rightarrow> string \<Rightarrow> string list" where
  "split_from cur [] = (if cur = [] then [] else [cur])"
| "split_from cur (c # cs) =
     (if isspace c then (if cur = [] then split_from [] cs else cur # split_from [] cs)
      else split_from (cur @ [c]) cs)"

definition split :: "string \<Rightarrow> string list" where
  "split s = split_from [] s"

text \<open>\<open>line.strip()\<close>: whitespace removed at both ends; \<open>rstrip\<close> removes it at the
  end only (the source never calls \<open>rstrip\<close>; it is what "trailing whitespace removed"
  means).\<close>

definition rstrip :: "string \<Rightarrow> string" where
  "rstrip s = rev (dropWhile isspace (rev s))"

definition strip :: "string \<Rightarrow> string" where
  "strip s = dropWhile isspace (rstrip s)"

text \<open>\<open>s.replace('"', "")\<close>: every double quote (code point 34) is removed.\<close>

definition replace_quote :: "string \<Rightarrow> string" where
  "replace_quote s = filter (\<lambda>c. c \<noteq> CHR 0x22) s"

text \<open>\<open>t.count(".")\<close>: the number of dots in \<open>t\<close>.\<close>

definition count_dot :: "string \<Rightarrow> nat" where
  "count_dot t = length (filter (\<lambda>c. c = CHR ''.'') t)"

text \<open>\<open>sub in s\<close> on strings: \<open>sub\<close> occurs in \<open>s\<close> as a contiguous substring.\<close>

fun str_contains :: "string \<Rightarrow> string \<Rightarrow> bool" where
  "str_contains sub [] = (sub = [])"
| "str_contains sub (c # cs) = (take (length sub) (c # cs) = sub \<or> str_contains sub cs)"

text \<open>\<open>xs[i]\<close> for an index that is not negative: IndexError out of range.\<close>

definition getitem :: "'a list \<Rightarrow> nat \<Rightarrow> exn + 'a" where
  "getitem xs i = (if i < length xs then Inr (xs ! i) else Inl IndexError)"

text \<open>\<open>xs.index(x)\<close>: the position of the first element equal to \<open>x\<close>, ValueError when
  there is none.\<close>

fun index :: "'a list \<Rightarrow> 'a \<Rightarrow> exn + nat" where
  "index [] x = Inl ValueError"
| "index (y # ys) x =
     (if y = x then Inr 0
      else case index ys x of Inl e \<Rightarrow> Inl e | Inr i \<Rightarrow> Inr (Suc i))"

text \<open>
  \<open>int(s)\<close> on a string, base ten: surrounding whitespace is ignored, one sign may lead,
  then decimal digits follow, where single underscores may stand between two digits.
  Anything else is a ValueError. (The interpreter's configurable limit on the number of
  digits is not part of the model.)
\<close>

definition isdigit :: "char \<Rightarrow> bool" where
  "isdigit c = (48 \<le> (of_char c :: nat) \<and> (of_char c :: nat) \<le> 57)"

definition digit_val :: "char \<Rightarrow> int" where
  "digit_val c = int (of_char c) - 48"

fun int_digits :: "bool \<Rightarrow> int \<Rightarrow> string \<Rightarrow> int option" where
  "int_digits prev acc [] = (if prev then Some acc else None)"
| "int_digits prev acc (c # cs) =
     (if isdigit c then int_digits True (acc * 10 + digit_val c) cs
      else if c = CHR ''_'' \<and> prev then int_digits False acc cs
      else None)"

definition py_int :: "string \<Rightarrow> exn + int" where
  "py_int s =
     (let r = (case strip s of
                 [] \<Rightarrow> None
               | c # cs \<Rightarrow>
                   if c = CHR ''-'' then map_option uminus (int_digits False 0 cs)
                   else if c = CHR ''+'' then int_digits False 0 cs
                   else int_digits False 0 (c # cs))
      in case r of None \<Rightarrow> Inl ValueError | Some n \<Rightarrow> Inr n)"

text \<open>Sequencing of two computations that may raise: the second runs on the value of
  the first, and an exception of the first is the result.\<close>

definition and_then :: "exn + 'a \<Rightarrow> ('a \<Rightarrow> exn + 'b) \<Rightarrow> exn + 'b" where
  "and_then r f = (case r of Inl e \<Rightarrow> Inl e | Inr v \<Rightarrow> f v)"

section \<open>Log parsers\<close>

text \<open>The dictionary that \<open>parse_nginx_log_line\<close> returns, with its five keys.\<close>

record nginx_parsed =
  remote_addr :: string
  "method" :: string
  path :: string
  status_code :: int
  raw :: string

text \<open>The body of the \<open>try\<close> block of \<open>parse_nginx_log_line\<close>: the dictionary's values
  are evaluated in the order written, and the first exception ends the evaluation.\<close>

definition parse_nginx_body :: "string \<Rightarrow> exn + nginx_parsed" where
  "parse_nginx_body line =
     (let parts = split line in
      and_then (getitem parts 0) (\<lambda>p0.
      and_then (getitem parts 5) (\<lambda>p5.
      and_then (getitem parts 6) (\<lambda>p6.
      and_then (getitem parts 8) (\<lambda>p8.
      and_then (py_int p8) (\<lambda>n.
        Inr \<lparr>remote_addr = p0, method = replace_quote p5, path = p6,
             status_code = n, raw = strip line\<rparr>))))))"

text \<open>\<open>except Exception: return None\<close>.\<close>

definition parse_nginx_log_line :: "string \<Rightarrow> nginx_parsed option" where
  "parse_nginx_log_line line =
     (case parse_nginx_body line of Inl e \<Rightarrow> None | Inr d \<Rightarrow> Some d)"

text \<open>The dictionary that \<open>parse_ssh_log_line\<close> returns; its key \<open>raw\<close> is the field
  \<open>ssh_raw\<close> here.\<close>

record ssh_parsed =
  user :: "string option"
  ip_address :: "string option"
  action :: string
  ssh_raw :: string

definition parse_ssh_body :: "string \<Rightarrow> exn + ssh_parsed" where
  "parse_ssh_body line =
     (let action0 = (if str_contains ''Accepted'' line then ''accepted''
                     else if str_contains ''Failed'' line then ''failed''
                     else ''unknown'');
          ip = find (\<lambda>t. count_dot t = 3) (split line)
      in and_then
           (if ''for'' \<in> set (split line)
            then and_then (index (split line) ''for'') (\<lambda>idx.
                 and_then (getitem (split line) (idx + 1)) (\<lambda>u. Inr (Some u)))
            else Inr None)
           (\<lambda>u. Inr \<lparr>user = u, ip_address = ip, action = action0,
                        ssh_raw = strip line\<rparr>))"

definition parse_ssh_log_line :: "string \<Rightarrow> ssh_parsed option" where
  "parse_ssh_log_line line =
     (case parse_ssh_body line of Inl e \<Rightarrow> None | Inr d \<Rightarrow> Some d)"

section \<open>Files, record store and process state\<close>

text \<open>
  What \<open>open(path)\<close> and the iteration over the file do: the open can fail; otherwise the
  lines are handed out in order (each as the iterator yields it, line end included), and
  the read either reaches the end of the file or fails after the lines listed.
\<close>

datatype log_file = OpenFails | Reads "string list" | ReadsThenFails "string list"

datatype level = INFO | WARNING

text \<open>
  The state the module works on. \<open>files\<close> is the file system (\<open>None\<close>: the path does not
  exist). The record store holds the two tables; \<open>store_up\<close> tells whether it accepts a
  statement (a commit or a query raises OperationalError when it does not). The rows are
  kept as the parsed dictionaries: the identity and creation time that the store assigns
  are not modelled. \<open>open_sessions\<close> and \<open>open_files\<close> count the store sessions and the
  file handles that were opened and not closed yet. \<open>logged\<close> is what the logger wrote.
  \<open>last_manual_run\<close> and \<open>ingest_lock\<close> are the module's globals \<open>_last_manual_run\<close> and
  \<open>_ingest_lock\<close> (\<open>True\<close>: the lock is held); time stamps are real numbers.
\<close>

record state =
  files :: "string \<Rightarrow> log_file option"
  store_up :: bool
  nginx_logs :: "nginx_parsed list"
  ssh_logs :: "ssh_parsed list"
  open_sessions :: nat
  open_files :: nat
  logged :: "(level \<times> string) list"
  last_manual_run :: real
  ingest_lock :: bool

definition logger :: "level \<Rightarrow> string \<Rightarrow> state \<Rightarrow> state" where
  "logger l msg s = s\<lparr>logged := logged s @ [(l, msg)]\<rparr>"

definition SessionLocal :: "state \<Rightarrow> state" where
  "SessionLocal s = s\<lparr>open_sessions := open_sessions s + 1\<rparr>"

definition db_close :: "state \<Rightarrow> state" where
  "db_close s = s\<lparr>open_sessions := open_sessions s - 1\<rparr>"

definition file_open :: "state \<Rightarrow> state" where
  "file_open s = s\<lparr>open_files := open_files s + 1\<rparr>"

definition file_close :: "state \<Rightarrow> state" where
  "file_close s = s\<lparr>open_files := open_files s - 1\<rparr>"

text \<open>\<open>db.commit()\<close> of a session whose pending objects are \<open>pending\<close>: the rows are
  appended to the table, or the commit raises and the table is unchanged.\<close>

definition commit_nginx :: "nginx_parsed list \<Rightarrow> state \<Rightarrow> (exn + unit) \<times> state" where
  "commit_nginx pending s =
     (if store_up s then (Inr (), s\<lparr>nginx_logs := nginx_logs s @ pending\<rparr>)
      else (Inl OperationalError, s))"

definition commit_ssh :: "ssh_parsed list \<Rightarrow> state \<Rightarrow> (exn + unit) \<times> state" where
  "commit_ssh pending s =
     (if store_up s then (Inr (), s\<lparr>ssh_logs := ssh_logs s @ pending\<rparr>)
      else (Inl OperationalError, s))"

text \<open>Sequencing of two steps on the state: an exception of the first step ends the
  sequence in the state reached.\<close>

definition then_run ::
  "(exn + 'a) \<times> state \<Rightarrow> ('a \<Rightarrow> state \<Rightarrow> (exn + 'b) \<times> state) \<Rightarrow> (exn + 'b) \<times> state" where
  "then_run r f = (case r of (Inl e, s) \<Rightarrow> (Inl e, s) | (Inr v, s) \<Rightarrow> f v s)"

section \<open>Ingestion\<close>

text \<open>The \<open>for line in f\<close> loops: \<open>pending\<close> is what \<open>db.add\<close> has collected in the
  session. A dictionary with keys is true in \<open>if parsed\<close>, \<open>None\<close> is false.\<close>

fun nginx_for :: "string list \<Rightarrow> nginx_parsed list \<Rightarrow> nginx_parsed list" where
  "nginx_for [] pending = pending"
| "nginx_for (line # rest) pending =
     (case parse_nginx_log_line line of
        None \<Rightarrow> nginx_for rest pending
      | Some parsed \<Rightarrow> nginx_for rest (pending @ [parsed]))"

fun ssh_for :: "string list \<Rightarrow> ssh_parsed list \<Rightarrow> ssh_parsed list" where
  "ssh_for [] pending = pending"
| "ssh_for (line # rest) pending =
     (case parse_ssh_log_line line of
        None \<Rightarrow> ssh_for rest pending
      | Some parsed \<Rightarrow> ssh_for rest (pending @ [parsed]))"

text \<open>
  \<open>with open(path, "r") as f: for line in f: ...\<close> in a state where the session is
  already open. A failing \<open>open\<close> raises before there is a handle. Otherwise the handle is
  opened, the loop runs, and the \<open>with\<close> statement closes the handle on the way out:
  at the end of the file with the pending objects, or with the exception of a failing
  read (the session and what it collected are then dropped without a commit).
\<close>

definition with_open ::
  "log_file \<Rightarrow> (string list \<Rightarrow> 'a list \<Rightarrow> 'a list) \<Rightarrow> state \<Rightarrow> (exn + 'a list) \<times> state" where
  "with_open f loop s =
     (case f of
        OpenFails \<Rightarrow> (Inl OSError, s)
      | Reads ls \<Rightarrow> (Inr (loop ls []), file_close (file_open s))
      | ReadsThenFails ls \<Rightarrow> (Inl OSError, file_close (file_open s)))"

definition ingest_nginx_logs :: "string \<Rightarrow> state \<Rightarrow> (exn + unit) \<times> state" where
  "ingest_nginx_logs p s =
     (case files s p of
        None \<Rightarrow> (Inr (), logger WARNING (''Nginx log not found: '' @ p) s)
      | Some f \<Rightarrow>
          then_run (with_open f nginx_for (SessionLocal s)) (\<lambda>pending s1.
          then_run (commit_nginx pending s1) (\<lambda>_ s2.
            (Inr (), db_close s2))))"

definition ingest_ssh_logs :: "string \<Rightarrow> state \<Rightarrow> (exn + unit) \<times> state" where
  "ingest_ssh_logs p s =
     (case files s p of
        None \<Rightarrow> (Inr (), logger WARNING (''SSH log not found: '' @ p) s)
      | Some f \<Rightarrow>
          then_run (with_open f ssh_for (SessionLocal s)) (\<lambda>pending s1.
          then_run (commit_ssh pending s1) (\<lambda>_ s2.
            (Inr (), db_close s2))))"

text \<open>The default arguments of the two functions.\<close>

definition nginx_path :: string where
  "nginx_path = ''/var/log/nginx/access.log''"

definition ssh_path :: string where
  "ssh_path = ''/var/log/auth.log''"

definition run_ingestion :: "state \<Rightarrow> (exn + unit) \<times> state" where
  "run_ingestion s =
     then_run (ingest_nginx_logs nginx_path (logger INFO ''Starting log ingestion'' s)) (\<lambda>_ s1.
     then_run (ingest_ssh_logs ssh_path s1) (\<lambda>_ s2.
       (Inr (), logger INFO ''Log ingestion finished'' s2)))"

section \<open>Scheduler, cooldown and the endpoints\<close>

definition INGEST_INTERVAL_SECONDS :: real where
  "INGEST_INTERVAL_SECONDS = 60 * 60 * 24"

definition MANUAL_COOLDOWN_SECONDS :: real where
  "MANUAL_COOLDOWN_SECONDS = 60"

text \<open>
  \<open>async with _ingest_lock: run_ingestion()\<close> from a state where the lock is free: the
  lock is taken, the body runs, and the lock is released on the way out, also when the
  body raises.
\<close>

definition release :: "state \<Rightarrow> state" where
  "release s = s\<lparr>ingest_lock := False\<rparr>"

definition acquire :: "state \<Rightarrow> state" where
  "acquire s = s\<lparr>ingest_lock := True\<rparr>"

text \<open>
  One round of \<open>ingestion_loop\<close> once its sleep is over. With the lock held, the
  \<open>async with\<close> waits for it: the round has no result yet (\<open>None\<close>). Otherwise it runs
  the ingestion under the lock; an exception of \<open>run_ingestion\<close> leaves the loop.
\<close>

definition ingestion_loop_round :: "state \<Rightarrow> ((exn + unit) \<times> state) option" where
  "ingestion_loop_round s =
     (if ingest_lock s then None
      else (case run_ingestion (acquire s) of (r, s1) \<Rightarrow> Some (r, release s1)))"

text \<open>What the transport gets from \<open>manual_ingest\<close>: a raised HTTPException with its
  status code and detail, the returned status, or an exception that was not handled.\<close>

datatype response = HTTPException nat string | Status string | Unhandled exn

text \<open>\<open>manual_ingest\<close> at time \<open>now = time.time()\<close>.\<close>

definition manual_ingest :: "real \<Rightarrow> state \<Rightarrow> response \<times> state" where
  "manual_ingest now s =
     (if now - last_manual_run s < MANUAL_COOLDOWN_SECONDS
      then (HTTPException 429 ''Ingest cooldown active (60s)'', s)
      else if ingest_lock s
      then (HTTPException 409 ''Ingest already running'', s)
      else (case run_ingestion ((acquire s)\<lparr>last_manual_run := now\<rparr>) of
              (Inl e, s1) \<Rightarrow> (Unhandled e, release s1)
            | (Inr _, s1) \<Rightarrow> (Status ''ingestion triggered'', release s1)))"


text \<open>
  The state when the module has been loaded: \<open>_last_manual_run = 0.0\<close>, the lock is free,
  nothing is open and nothing has been logged. The file system and the availability of
  the store are given; the tables are empty. \<open>two_files\<close> is a file system that has at most
  the two log files at their default paths.
\<close>

definition initial_state :: "(string \<Rightarrow> log_file option) \<Rightarrow> bool \<Rightarrow> state" where
  "initial_state fs up =
     \<lparr>files = fs, store_up = up, nginx_logs = [], ssh_logs = [], open_sessions = 0,
      open_files = 0, logged = [], last_manual_run = 0, ingest_lock = False\<rparr>"

definition two_files :: "log_file option \<Rightarrow> log_file option \<Rightarrow> string \<Rightarrow> log_file option" where
  "two_files nginx ssh p =
     (if p = nginx_path then nginx else if p = ssh_path then ssh else None)"

section \<open>Facts about the Python values\<close>

lemma and_then_Inr [simp]: "and_then (Inr v) f = f v"
  by (simp add: and_then_def)

lemma and_then_Inl [simp]: "and_then (Inl e) f = Inl e"
  by (simp add: and_then_def)

lemma index_first:
  "x \<in> set xs \<Longrightarrow> index xs x = Inr (length (takeWhile (\<lambda>y. y \<noteq> x) xs))"
  by (induction xs) auto

lemma first_pos_less:
  "x \<in> set xs \<Longrightarrow> length (takeWhile (\<lambda>y. y \<noteq> x) xs) < length xs"
  by (induction xs) auto

lemma first_pos_prefix:
  "x \<notin> set pre \<Longrightarrow> length (takeWhile (\<lambda>y. y \<noteq> x) (pre @ x # rest)) = length pre"
  by (induction pre) auto

lemma first_is_last_split:
  "x \<in> set xs \<Longrightarrow> Suc (length (takeWhile (\<lambda>y. y \<noteq> x) xs)) = length xs \<Longrightarrow>
     \<exists>pre. xs = pre @ [x] \<and> x \<notin> set pre"
proof (induction xs)
  case Nil
  then show ?case by simp
next
  case (Cons a as)
  show ?case
  proof (cases "a = x")
    case True
    with Cons.prems(2) have "as = []" by simp
    with True have "a # as = [] @ [x] \<and> x \<notin> set []" by simp
    then show ?thesis by (rule exI)
  next
    case False
    with Cons.prems(1) have m: "x \<in> set as" by simp
    from False Cons.prems(2) have l: "Suc (length (takeWhile (\<lambda>y. y \<noteq> x) as)) = length as"
      by simp
    from Cons.IH [OF m l] obtain pre where p: "as = pre @ [x]" "x \<notin> set pre" by (elim exE conjE)
    with False have "a # as = (a # pre) @ [x] \<and> x \<notin> set (a # pre)" by simp
    then show ?thesis by (rule exI)
  qed
qed

lemma first_is_last_iff:
  "(x \<in> set xs \<and> Suc (length (takeWhile (\<lambda>y. y \<noteq> x) xs)) = length xs)
   \<longleftrightarrow> (\<exists>pre. xs = pre @ [x] \<and> x \<notin> set pre)"
proof
  assume a: "x \<in> set xs \<and> Suc (length (takeWhile (\<lambda>y. y \<noteq> x) xs)) = length xs"
  show "\<exists>pre. xs = pre @ [x] \<and> x \<notin> set pre"
    by (rule first_is_last_split) (simp_all add: a)
next
  assume "\<exists>pre. xs = pre @ [x] \<and> x \<notin> set pre"
  then obtain pre where p: "xs = pre @ [x]" "x \<notin> set pre" by (elim exE conjE)
  have "length (takeWhile (\<lambda>y. y \<noteq> x) (pre @ x # [])) = length pre"
    using p(2) by (rule first_pos_prefix)
  then show "x \<in> set xs \<and> Suc (length (takeWhile (\<lambda>y. y \<noteq> x) xs)) = length xs"
    using p(1) by simp
qed

text \<open>
  \<open>str_contains\<close> is the substring test: \<open>sub\<close> lies in \<open>s\<close> between some prefix and
  some suffix.
\<close>

lemma str_contains_iff: "str_contains sub s \<longleftrightarrow> (\<exists>p q. s = p @ sub @ q)"
proof (induction s)
  case Nil
  then show ?case by auto
next
  case (Cons c cs)
  show ?case
  proof
    assume "str_contains sub (c # cs)"
    then consider "take (length sub) (c # cs) = sub" | "str_contains sub cs" by auto
    then show "\<exists>p q. c # cs = p @ sub @ q"
    proof cases
      case 1
      then have "c # cs = [] @ sub @ drop (length sub) (c # cs)"
        by (metis append_Nil append_take_drop_id)
      then show ?thesis by blast
    next
      case 2
      then obtain p q where "cs = p @ sub @ q" using Cons.IH by blast
      then have "c # cs = (c # p) @ sub @ q" by simp
      then show ?thesis by blast
    qed
  next
    assume "\<exists>p q. c # cs = p @ sub @ q"
    then obtain p q where pq: "c # cs = p @ sub @ q" by blast
    show "str_contains sub (c # cs)"
    proof (cases p)
      case Nil
      then have "take (length sub) (c # cs) = sub" using pq by simp
      then show ?thesis by simp
    next
      case (Cons a p')
      then have "cs = p' @ sub @ q" using pq by simp
      then show ?thesis using Cons.IH by auto
    qed
  qed
qed

lemma rstrip_take: "rstrip s = take (length (rstrip s)) s"
proof -
  have "rev s = takeWhile isspace (rev s) @ dropWhile isspace (rev s)" by simp
  then have "s = rev (dropWhile isspace (rev s)) @ rev (takeWhile isspace (rev s))"
    by (metis rev_append rev_rev_ident)
  then have "s = rstrip s @ rev (takeWhile isspace (rev s))" by (simp add: rstrip_def)
  then show ?thesis by (metis append_eq_conv_conj)
qed

lemma dropWhile_self_iff:
  "dropWhile P xs = xs \<longleftrightarrow> xs = [] \<or> \<not> P (hd xs)"
proof (cases xs)
  case Nil
  then show ?thesis by simp
next
  case (Cons a list)
  have "dropWhile P list \<noteq> a # list"
  proof
    assume "dropWhile P list = a # list"
    then have "length (dropWhile P list) = Suc (length list)" by simp
    then show False using length_dropWhile_le [of P list] by simp
  qed
  then show ?thesis using Cons by simp
qed

lemma strip_eq_rstrip_iff:
  "rstrip s \<noteq> [] \<Longrightarrow> strip s = rstrip s \<longleftrightarrow> \<not> isspace (hd s)"
proof -
  assume ne: "rstrip s \<noteq> []"
  have "hd (rstrip s) = hd s"
    using ne rstrip_take [of s] by (metis hd_take length_greater_0_conv)
  moreover have "dropWhile isspace (rstrip s) = rstrip s \<longleftrightarrow> \<not> isspace (hd (rstrip s))"
    using ne by (simp add: dropWhile_self_iff)
  ultimately show ?thesis by (simp add: strip_def)
qed

lemma split_from_all_space: "\<forall>c\<in>set s. isspace c \<Longrightarrow> split_from [] s = []"
  by (induction s) auto

lemma split_nonempty_rstrip: "split line \<noteq> [] \<Longrightarrow> rstrip line \<noteq> []"
proof
  assume ne: "split line \<noteq> []" and "rstrip line = []"
  then have "dropWhile isspace (rev line) = []" by (simp add: rstrip_def)
  then have "\<forall>c\<in>set line. isspace c" by (simp add: dropWhile_eq_Nil_conv)
  then have "split line = []" by (simp add: split_def split_from_all_space)
  with ne show False by simp
qed

section \<open>The parsers in closed form\<close>

text \<open>
  The \<open>try\<close> block of each parser, with its exceptions resolved: which lines give
  \<open>None\<close>, and what the dictionary holds otherwise.
\<close>

lemma parse_nginx_unfold:
  "parse_nginx_log_line line =
     (if length (split line) < 9 then None
      else case py_int (split line ! 8) of
             Inl e \<Rightarrow> None
           | Inr n \<Rightarrow> Some \<lparr>remote_addr = split line ! 0, method = replace_quote (split line ! 5),
                            path = split line ! 6,
                            status_code = n,
                            raw = strip line\<rparr>)"
  by (simp add: parse_nginx_log_line_def parse_nginx_body_def getitem_def Let_def
           split: sum.splits)

lemma parse_ssh_unfold:
  "parse_ssh_log_line line =
     (if ''for'' \<in> set (split line) \<and>
         Suc (length (takeWhile (\<lambda>t. t \<noteq> ''for'') (split line))) = length (split line)
      then None
      else Some \<lparr>user = (if ''for'' \<in> set (split line)
                         then Some (split line ! Suc (length (takeWhile (\<lambda>t. t \<noteq> ''for'') (split line))))
                         else None),
                 ip_address = find (\<lambda>t. count_dot t = 3) (split line),
                 action = (if str_contains ''Accepted'' line then ''accepted''
                           else if str_contains ''Failed'' line then ''failed''
                           else ''unknown''),
                 ssh_raw = strip line\<rparr>)"
proof (cases "''for'' \<in> set (split line)")
  case False
  then show ?thesis
    by (simp add: parse_ssh_log_line_def parse_ssh_body_def Let_def)
next
  case True
  have lt: "length (takeWhile (\<lambda>t. t \<noteq> ''for'') (split line)) < length (split line)"
    using True by (rule first_pos_less)
  show ?thesis
    using True lt
    by (auto simp add: parse_ssh_log_line_def parse_ssh_body_def Let_def index_first getitem_def)
qed

section \<open>Claims about the parsers\<close>

text \<open>
  C3. \<open>parse_nginx_log_line\<close> splits the line on whitespace. With fewer than nine
  tokens, or when token 8 is not an integer for \<open>int\<close>, the result is \<open>None\<close>. Otherwise
  the result is the dictionary whose remote address is token 0, whose method is token 5
  without its double quotes, whose path is token 6 and whose status code is the integer
  value of token 8. A line that gives \<open>None\<close> is skipped by the ingestion loop: nothing is
  added for it, and the loop goes on with the next line.
\<close>

theorem parse_nginx_log_line_tokens:
  "parse_nginx_log_line line =
     (if length (split line) < 9 then None
      else case py_int (split line ! 8) of
             Inl e \<Rightarrow> None
           | Inr n \<Rightarrow> Some \<lparr>remote_addr = split line ! 0, method = replace_quote (split line ! 5),
                            path = split line ! 6,
                            status_code = n,
                            raw = strip line\<rparr>)
   \<and> (parse_nginx_log_line line = None \<longrightarrow>
        nginx_for (line # rest) pending = nginx_for rest pending)"
  by (simp add: parse_nginx_unfold)

theorem parse_nginx_log_line_tokens_witness:
  "parse_nginx_log_line
     (''1.2.3.4 - - [10/Oct/2023:13:55:36 +0000] '' @ [CHR 0x22] @
      ''GET /index.html HTTP/1.1'' @ [CHR 0x22] @ '' 200 512'') =
     Some \<lparr>remote_addr = ''1.2.3.4'', method = ''GET'', path = ''/index.html'',
            status_code = 200,
            raw = ''1.2.3.4 - - [10/Oct/2023:13:55:36 +0000] '' @ [CHR 0x22] @
                  ''GET /index.html HTTP/1.1'' @ [CHR 0x22] @ '' 200 512''\<rparr>
   \<and> parse_nginx_log_line ''1.2.3.4 - - x'' = None
   \<and> nginx_for [''1.2.3.4 - - x''] [] = []"
proof -
  have none: "parse_nginx_log_line ''1.2.3.4 - - x'' = None"
    by code_simp
  have skip: "nginx_for [''1.2.3.4 - - x''] [] = nginx_for [] []"
    using parse_nginx_log_line_tokens [of "''1.2.3.4 - - x''" "[]" "[]"] none by blast
  have some: "parse_nginx_log_line
     (''1.2.3.4 - - [10/Oct/2023:13:55:36 +0000] '' @ [CHR 0x22] @
      ''GET /index.html HTTP/1.1'' @ [CHR 0x22] @ '' 200 512'') =
     Some \<lparr>remote_addr = ''1.2.3.4'', method = ''GET'', path = ''/index.html'',
            status_code = 200,
            raw = ''1.2.3.4 - - [10/Oct/2023:13:55:36 +0000] '' @ [CHR 0x22] @
                  ''GET /index.html HTTP/1.1'' @ [CHR 0x22] @ '' 200 512''\<rparr>"
    by code_simp
  show ?thesis using none skip some by simp
qed

text \<open>
  C9, as stated, fails: the value under \<open>raw\<close> is \<open>line.strip()\<close>, which also removes the
  whitespace at the start of the line. On a line that begins with a space the value
  differs from the line with only its trailing whitespace removed.
\<close>

theorem parse_nginx_raw_counterexample:
  "parse_nginx_log_line '' 1.2.3.4 - - [t +0] GET / HTTP/1.1 200 5'' \<noteq> None
   \<and> map_option raw (parse_nginx_log_line '' 1.2.3.4 - - [t +0] GET / HTTP/1.1 200 5'')
       \<noteq> Some (rstrip '' 1.2.3.4 - - [t +0] GET / HTTP/1.1 200 5'')"
  by code_simp

text \<open>
  C9, amended. When \<open>parse_nginx_log_line\<close> returns a dictionary, its \<open>raw\<close> value is the
  line with the whitespace at both ends removed; it is the line with only the trailing
  whitespace removed exactly when the line does not begin with whitespace.
\<close>

theorem parse_nginx_raw_strip:
  "parse_nginx_log_line line = Some d \<Longrightarrow>
     raw d = strip line \<and> (raw d = rstrip line \<longleftrightarrow> \<not> isspace (hd line))"
proof -
  assume p: "parse_nginx_log_line line = Some d"
  then have r: "raw d = strip line"
    by (auto simp add: parse_nginx_unfold split: if_splits sum.splits)
  from p have "split line \<noteq> []"
    by (auto simp add: parse_nginx_unfold split: if_splits)
  then have "rstrip line \<noteq> []" by (rule split_nonempty_rstrip)
  then show ?thesis using r by (simp add: strip_eq_rstrip_iff)
qed

theorem parse_nginx_raw_strip_witness:
  "parse_nginx_log_line ''  1.2.3.4 - - [t +0] GET / HTTP/1.1 200 5  '' =
     Some \<lparr>remote_addr = ''1.2.3.4'', method = ''GET'', path = ''/'', status_code = 200,
            raw = ''1.2.3.4 - - [t +0] GET / HTTP/1.1 200 5''\<rparr>
   \<and> raw \<lparr>remote_addr = ''1.2.3.4'', method = ''GET'', path = ''/'', status_code = 200,
            raw = ''1.2.3.4 - - [t +0] GET / HTTP/1.1 200 5''\<rparr> =
       strip ''  1.2.3.4 - - [t +0] GET / HTTP/1.1 200 5  ''"
proof -
  have p: "parse_nginx_log_line ''  1.2.3.4 - - [t +0] GET / HTTP/1.1 200 5  '' =
     Some \<lparr>remote_addr = ''1.2.3.4'', method = ''GET'', path = ''/'', status_code = 200,
            raw = ''1.2.3.4 - - [t +0] GET / HTTP/1.1 200 5''\<rparr>"
    by code_simp
  show ?thesis using p parse_nginx_raw_strip [OF p] by simp
qed

text \<open>
  C4, as stated, fails: a line whose first token \<open>for\<close> is its last token raises
  IndexError inside the \<open>try\<close> block, and the parser returns \<open>None\<close>: no action is
  classified and no dictionary with an absent user is produced, although the line
  contains \<open>Accepted\<close>.
\<close>

theorem parse_ssh_for_last_counterexample:
  "str_contains ''Accepted'' ''Accepted password for''
   \<and> parse_ssh_log_line ''Accepted password for'' = None"
  by code_simp

text \<open>
  C4, amended. Whenever \<open>parse_ssh_log_line\<close> returns a dictionary: the action is
  \<open>accepted\<close> if the line contains \<open>Accepted\<close>, else \<open>failed\<close> if it contains \<open>Failed\<close>, else
  \<open>unknown\<close>; the address is the first token with exactly three dots, and absent when no
  token has three dots; the user is absent when no token equals \<open>for\<close>, and is the token
  that follows the first token \<open>for\<close> otherwise. On the line of the specification the
  result has user \<open>alice\<close>, address \<open>10.0.0.5\<close> and action \<open>accepted\<close>.
\<close>

theorem parse_ssh_log_line_fields:
  "(parse_ssh_log_line line = Some d \<longrightarrow>
      action d = (if str_contains ''Accepted'' line then ''accepted''
                  else if str_contains ''Failed'' line then ''failed''
                  else ''unknown'')
      \<and> (\<forall>t. ip_address d = Some t \<longleftrightarrow>
            (\<exists>i < length (split line). split line ! i = t \<and> count_dot t = 3
               \<and> (\<forall>j < i. count_dot (split line ! j) \<noteq> 3)))
      \<and> (ip_address d = None \<longleftrightarrow> (\<forall>t \<in> set (split line). count_dot t \<noteq> 3))
      \<and> (''for'' \<notin> set (split line) \<longrightarrow> user d = None)
      \<and> (\<forall>pre u rest. split line = pre @ ''for'' # u # rest \<and> ''for'' \<notin> set pre
            \<longrightarrow> user d = Some u))
   \<and> parse_ssh_log_line
        ''Jan 1 00:00:00 host sshd[1]: Accepted password for alice from 10.0.0.5 port 22'' =
       Some \<lparr>user = Some ''alice'', ip_address = Some ''10.0.0.5'', action = ''accepted'',
              ssh_raw = ''Jan 1 00:00:00 host sshd[1]: Accepted password for alice from 10.0.0.5 port 22''\<rparr>"
proof (intro conjI impI allI)
  show "parse_ssh_log_line
        ''Jan 1 00:00:00 host sshd[1]: Accepted password for alice from 10.0.0.5 port 22'' =
       Some \<lparr>user = Some ''alice'', ip_address = Some ''10.0.0.5'', action = ''accepted'',
              ssh_raw = ''Jan 1 00:00:00 host sshd[1]: Accepted password for alice from 10.0.0.5 port 22''\<rparr>"
    by code_simp
next
  assume p: "parse_ssh_log_line line = Some d"
  then show "action d = (if str_contains ''Accepted'' line then ''accepted''
                  else if str_contains ''Failed'' line then ''failed''
                  else ''unknown'')"
    by (auto simp add: parse_ssh_unfold split: if_splits)
next
  fix t
  assume p: "parse_ssh_log_line line = Some d"
  then have ip: "ip_address d = find (\<lambda>t. count_dot t = 3) (split line)"
    by (auto simp add: parse_ssh_unfold split: if_splits)
  show "ip_address d = Some t \<longleftrightarrow>
            (\<exists>i < length (split line). split line ! i = t \<and> count_dot t = 3
               \<and> (\<forall>j < i. count_dot (split line ! j) \<noteq> 3))"
    unfolding ip find_Some_iff by auto
next
  assume p: "parse_ssh_log_line line = Some d"
  then have ip: "ip_address d = find (\<lambda>t. count_dot t = 3) (split line)"
    by (auto simp add: parse_ssh_unfold split: if_splits)
  show "ip_address d = None \<longleftrightarrow> (\<forall>t \<in> set (split line). count_dot t \<noteq> 3)"
    unfolding ip find_None_iff by auto
next
  assume p: "parse_ssh_log_line line = Some d" and "''for'' \<notin> set (split line)"
  then show "user d = None"
    by (auto simp add: parse_ssh_unfold split: if_splits)
next
  fix pre u rest
  assume p: "parse_ssh_log_line line = Some d"
    and a: "split line = pre @ ''for'' # u # rest \<and> ''for'' \<notin> set pre"
  then have "length (takeWhile (\<lambda>t. t \<noteq> ''for'') (split line)) = length pre"
    by (simp add: first_pos_prefix)
  then show "user d = Some u"
    using a p by (auto simp add: parse_ssh_unfold nth_append split: if_splits)
qed

theorem parse_ssh_log_line_fields_witness:
  "parse_ssh_log_line ''Failed password for root from 10.0.0.9 port 22'' =
     Some \<lparr>user = Some ''root'', ip_address = Some ''10.0.0.9'', action = ''failed'',
            ssh_raw = ''Failed password for root from 10.0.0.9 port 22''\<rparr>
   \<and> split ''Failed password for root from 10.0.0.9 port 22'' =
       [''Failed'', ''password''] @ ''for'' # ''root'' # [''from'', ''10.0.0.9'', ''port'', ''22'']
   \<and> ''for'' \<notin> set [''Failed'', ''password'']
   \<and> user \<lparr>user = Some ''root'', ip_address = Some ''10.0.0.9'', action = ''failed'',
             ssh_raw = ''Failed password for root from 10.0.0.9 port 22''\<rparr> = Some ''root''
   \<and> action \<lparr>user = Some ''root'', ip_address = Some ''10.0.0.9'', action = ''failed'',
               ssh_raw = ''Failed password for root from 10.0.0.9 port 22''\<rparr> =
       (if str_contains ''Accepted'' ''Failed password for root from 10.0.0.9 port 22''
        then ''accepted''
        else if str_contains ''Failed'' ''Failed password for root from 10.0.0.9 port 22''
        then ''failed'' else ''unknown'')"
proof -
  let ?L = "''Failed password for root from 10.0.0.9 port 22''"
  let ?D = "\<lparr>user = Some ''root'', ip_address = Some ''10.0.0.9'', action = ''failed'',
             ssh_raw = ''Failed password for root from 10.0.0.9 port 22''\<rparr>"
  have p: "parse_ssh_log_line ?L = Some ?D"
    by code_simp
  have s: "split ?L =
       [''Failed'', ''password''] @ ''for'' # ''root'' # [''from'', ''10.0.0.9'', ''port'', ''22'']
       \<and> ''for'' \<notin> set [''Failed'', ''password'']"
    by code_simp
  from parse_ssh_log_line_fields [where line = ?L and d = ?D]
  have imp: "parse_ssh_log_line ?L = Some ?D \<longrightarrow>
      action ?D = (if str_contains ''Accepted'' ?L then ''accepted''
                   else if str_contains ''Failed'' ?L then ''failed''
                   else ''unknown'')
      \<and> (\<forall>t. ip_address ?D = Some t \<longleftrightarrow>
            (\<exists>i < length (split ?L). split ?L ! i = t \<and> count_dot t = 3
               \<and> (\<forall>j < i. count_dot (split ?L ! j) \<noteq> 3)))
      \<and> (ip_address ?D = None \<longleftrightarrow> (\<forall>t \<in> set (split ?L). count_dot t \<noteq> 3))
      \<and> (''for'' \<notin> set (split ?L) \<longrightarrow> user ?D = None)
      \<and> (\<forall>pre u rest. split ?L = pre @ ''for'' # u # rest \<and> ''for'' \<notin> set pre
            \<longrightarrow> user ?D = Some u)"
    by (rule conjunct1)
  from imp p have a: "action ?D = (if str_contains ''Accepted'' ?L then ''accepted''
                   else if str_contains ''Failed'' ?L then ''failed''
                   else ''unknown'')"
    and u: "\<forall>pre u rest. split ?L = pre @ ''for'' # u # rest \<and> ''for'' \<notin> set pre
            \<longrightarrow> user ?D = Some u"
    by blast+
  from u have "split ?L = [''Failed'', ''password''] @ ''for'' # ''root''
                 # [''from'', ''10.0.0.9'', ''port'', ''22'']
               \<and> ''for'' \<notin> set [''Failed'', ''password''] \<longrightarrow> user ?D = Some ''root''"
    by (elim allE)
  with s have r: "user ?D = Some ''root''" by (elim impE) assumption
  from p s r a show ?thesis by (intro conjI) (elim conjE, assumption)+
qed

text \<open>
  C10. \<open>parse_ssh_log_line\<close> returns \<open>None\<close> exactly when the token list has a token
  \<open>for\<close> whose first occurrence is the last token. The empty line gives the action
  \<open>unknown\<close> with user and address absent. With several tokens \<open>for\<close>, the user is the
  token after the first of them.
\<close>

theorem parse_ssh_log_line_none_iff:
  "(parse_ssh_log_line line = None \<longleftrightarrow>
      (\<exists>pre. split line = pre @ [''for''] \<and> ''for'' \<notin> set pre))
   \<and> parse_ssh_log_line [] =
       Some \<lparr>user = None, ip_address = None, action = ''unknown'', ssh_raw = []\<rparr>
   \<and> (split line = pre @ ''for'' # u # rest \<and> ''for'' \<notin> set pre \<longrightarrow>
        map_option user (parse_ssh_log_line line) = Some (Some u))"
proof (intro conjI impI)
  show "parse_ssh_log_line line = None \<longleftrightarrow>
      (\<exists>pre. split line = pre @ [''for''] \<and> ''for'' \<notin> set pre)"
    using first_is_last_iff [of "''for''" "split line"]
    by (simp add: parse_ssh_unfold)
  show "parse_ssh_log_line [] =
       Some \<lparr>user = None, ip_address = None, action = ''unknown'', ssh_raw = []\<rparr>"
    by (simp add: parse_ssh_unfold split_def strip_def rstrip_def)
  assume a: "split line = pre @ ''for'' # u # rest \<and> ''for'' \<notin> set pre"
  then have "length (takeWhile (\<lambda>t. t \<noteq> ''for'') (split line)) = length pre"
    by (simp add: first_pos_prefix)
  then show "map_option user (parse_ssh_log_line line) = Some (Some u)"
    using a by (simp add: parse_ssh_unfold nth_append)
qed

theorem parse_ssh_log_line_none_iff_witness:
  "parse_ssh_log_line ''session opened for'' = None
   \<and> map_option user (parse_ssh_log_line ''Failed for bob for root'') = Some (Some ''bob'')"
proof -
  have s1: "split ''session opened for'' = [''session'', ''opened''] @ [''for'']
            \<and> ''for'' \<notin> set [''session'', ''opened'']"
    by code_simp
  have s2: "split ''Failed for bob for root'' = [''Failed''] @ ''for'' # ''bob'' # [''for'', ''root'']
            \<and> ''for'' \<notin> set [''Failed'']"
    by code_simp
  have a: "parse_ssh_log_line ''session opened for'' = None"
    using parse_ssh_log_line_none_iff [of "''session opened for''" "[]" "[]" "[]"] s1 by blast
  have b: "map_option user (parse_ssh_log_line ''Failed for bob for root'') = Some (Some ''bob'')"
    using parse_ssh_log_line_none_iff
      [of "''Failed for bob for root''" "[''Failed'']" "''bob''" "[''for'', ''root'']"] s2
    by blast
  show ?thesis using a b by simp
qed

section \<open>The ingestion functions in closed form\<close>

lemma nginx_for_append:
  "nginx_for ls pending = pending @ List.map_filter parse_nginx_log_line ls"
  by (induction ls arbitrary: pending) (auto simp: List.map_filter_simps split: option.splits)

lemma ssh_for_append:
  "ssh_for ls pending = pending @ List.map_filter parse_ssh_log_line ls"
  by (induction ls arbitrary: pending) (auto simp: List.map_filter_simps split: option.splits)


lemma then_run_Inl [simp]: "then_run (Inl e, s) f = (Inl e, s)"
  by (simp add: then_run_def)

lemma then_run_Inr [simp]: "then_run (Inr v, s) f = f v s"
  by (simp add: then_run_def)

lemma file_close_open [simp]: "file_close (file_open s) = s"
  by (simp add: file_close_def file_open_def)

text \<open>
  Each ingestion function by the cases of its file: absent, not openable, failing while
  read, or read to the end, where the commit then depends on the store.
\<close>

lemma ingest_nginx_cases:
  "ingest_nginx_logs p s =
     (case files s p of
        None \<Rightarrow> (Inr (), s\<lparr>logged := logged s @ [(WARNING, ''Nginx log not found: '' @ p)]\<rparr>)
      | Some OpenFails \<Rightarrow> (Inl OSError, s\<lparr>open_sessions := open_sessions s + 1\<rparr>)
      | Some (ReadsThenFails ls) \<Rightarrow> (Inl OSError, s\<lparr>open_sessions := open_sessions s + 1\<rparr>)
      | Some (Reads ls) \<Rightarrow>
          if store_up s
          then (Inr (), s\<lparr>nginx_logs := nginx_logs s @ List.map_filter parse_nginx_log_line ls\<rparr>)
          else (Inl OperationalError, s\<lparr>open_sessions := open_sessions s + 1\<rparr>))"
  by (simp add: ingest_nginx_logs_def with_open_def commit_nginx_def SessionLocal_def
        db_close_def logger_def nginx_for_append split: option.splits log_file.splits)

lemma ingest_ssh_cases:
  "ingest_ssh_logs p s =
     (case files s p of
        None \<Rightarrow> (Inr (), s\<lparr>logged := logged s @ [(WARNING, ''SSH log not found: '' @ p)]\<rparr>)
      | Some OpenFails \<Rightarrow> (Inl OSError, s\<lparr>open_sessions := open_sessions s + 1\<rparr>)
      | Some (ReadsThenFails ls) \<Rightarrow> (Inl OSError, s\<lparr>open_sessions := open_sessions s + 1\<rparr>)
      | Some (Reads ls) \<Rightarrow>
          if store_up s
          then (Inr (), s\<lparr>ssh_logs := ssh_logs s @ List.map_filter parse_ssh_log_line ls\<rparr>)
          else (Inl OperationalError, s\<lparr>open_sessions := open_sessions s + 1\<rparr>))"
  by (simp add: ingest_ssh_logs_def with_open_def commit_ssh_def SessionLocal_def
        db_close_def logger_def ssh_for_append split: option.splits log_file.splits)

text \<open>
  What the ingestion functions leave alone.
\<close>

lemma ingest_nginx_frame:
  "files (snd (ingest_nginx_logs p s)) = files s"
  "store_up (snd (ingest_nginx_logs p s)) = store_up s"
  "ssh_logs (snd (ingest_nginx_logs p s)) = ssh_logs s"
  "open_files (snd (ingest_nginx_logs p s)) = open_files s"
  "last_manual_run (snd (ingest_nginx_logs p s)) = last_manual_run s"
  "ingest_lock (snd (ingest_nginx_logs p s)) = ingest_lock s"
  by (simp_all add: ingest_nginx_cases split: option.splits log_file.splits)

lemma ingest_ssh_frame:
  "files (snd (ingest_ssh_logs p s)) = files s"
  "store_up (snd (ingest_ssh_logs p s)) = store_up s"
  "nginx_logs (snd (ingest_ssh_logs p s)) = nginx_logs s"
  "open_files (snd (ingest_ssh_logs p s)) = open_files s"
  "last_manual_run (snd (ingest_ssh_logs p s)) = last_manual_run s"
  "ingest_lock (snd (ingest_ssh_logs p s)) = ingest_lock s"
  by (simp_all add: ingest_ssh_cases split: option.splits log_file.splits)

lemma logger_frame [simp]:
  "files (logger l m s) = files s"
  "store_up (logger l m s) = store_up s"
  "nginx_logs (logger l m s) = nginx_logs s"
  "ssh_logs (logger l m s) = ssh_logs s"
  "open_sessions (logger l m s) = open_sessions s"
  "open_files (logger l m s) = open_files s"
  "last_manual_run (logger l m s) = last_manual_run s"
  "ingest_lock (logger l m s) = ingest_lock s"
  by (simp_all add: logger_def)

lemma run_ingestion_steps:
  "run_ingestion s =
     (case ingest_nginx_logs nginx_path (logger INFO ''Starting log ingestion'' s) of
        (Inl e, s1) \<Rightarrow> (Inl e, s1)
      | (Inr u, s1) \<Rightarrow>
          (case ingest_ssh_logs ssh_path s1 of
             (Inl e, s2) \<Rightarrow> (Inl e, s2)
           | (Inr v, s2) \<Rightarrow> (Inr (), logger INFO ''Log ingestion finished'' s2)))"
  by (simp add: run_ingestion_def then_run_def split: prod.splits sum.splits)

lemma run_ingestion_frame:
  "files (snd (run_ingestion s)) = files s"
  "store_up (snd (run_ingestion s)) = store_up s"
  "open_files (snd (run_ingestion s)) = open_files s"
  "last_manual_run (snd (run_ingestion s)) = last_manual_run s"
  "ingest_lock (snd (run_ingestion s)) = ingest_lock s"
proof -
  let ?s0 = "logger INFO ''Starting log ingestion'' s"
  obtain r1 s1 where n: "ingest_nginx_logs nginx_path ?s0 = (r1, s1)" by (cases "ingest_nginx_logs nginx_path ?s0")
  obtain r2 s2 where h: "ingest_ssh_logs ssh_path s1 = (r2, s2)" by (cases "ingest_ssh_logs ssh_path s1")
  have f1: "files s1 = files s" "store_up s1 = store_up s" "open_files s1 = open_files s"
    "last_manual_run s1 = last_manual_run s" "ingest_lock s1 = ingest_lock s"
    using ingest_nginx_frame [of nginx_path ?s0] n by simp_all
  have f2: "files s2 = files s1" "store_up s2 = store_up s1" "open_files s2 = open_files s1"
    "last_manual_run s2 = last_manual_run s1" "ingest_lock s2 = ingest_lock s1"
    using ingest_ssh_frame [of ssh_path s1] h by simp_all
  show "files (snd (run_ingestion s)) = files s"
    "store_up (snd (run_ingestion s)) = store_up s"
    "open_files (snd (run_ingestion s)) = open_files s"
    "last_manual_run (snd (run_ingestion s)) = last_manual_run s"
    "ingest_lock (snd (run_ingestion s)) = ingest_lock s"
    using n h f1 f2 by (simp_all add: run_ingestion_steps split: sum.splits)
qed

lemma ingest_nginx_last:
  "ingest_nginx_logs p (s\<lparr>last_manual_run := t\<rparr>) =
     (fst (ingest_nginx_logs p s), (snd (ingest_nginx_logs p s))\<lparr>last_manual_run := t\<rparr>)"
  by (simp add: ingest_nginx_cases split: option.splits log_file.splits)

lemma ingest_ssh_last:
  "ingest_ssh_logs p (s\<lparr>last_manual_run := t\<rparr>) =
     (fst (ingest_ssh_logs p s), (snd (ingest_ssh_logs p s))\<lparr>last_manual_run := t\<rparr>)"
  by (simp add: ingest_ssh_cases split: option.splits log_file.splits)

lemma logger_last:
  "logger l m (s\<lparr>last_manual_run := t\<rparr>) = (logger l m s)\<lparr>last_manual_run := t\<rparr>"
  by (simp add: logger_def)

lemma run_ingestion_last:
  "run_ingestion (s\<lparr>last_manual_run := t\<rparr>) =
     (fst (run_ingestion s), (snd (run_ingestion s))\<lparr>last_manual_run := t\<rparr>)"
proof -
  let ?s0 = "logger INFO ''Starting log ingestion'' s"
  obtain r1 s1 where n: "ingest_nginx_logs nginx_path ?s0 = (r1, s1)" by (cases "ingest_nginx_logs nginx_path ?s0")
  obtain r2 s2 where h: "ingest_ssh_logs ssh_path s1 = (r2, s2)" by (cases "ingest_ssh_logs ssh_path s1")
  have n': "ingest_nginx_logs nginx_path (logger INFO ''Starting log ingestion'' (s\<lparr>last_manual_run := t\<rparr>))
            = (r1, s1\<lparr>last_manual_run := t\<rparr>)"
    using n by (simp add: logger_last ingest_nginx_last)
  have h': "ingest_ssh_logs ssh_path (s1\<lparr>last_manual_run := t\<rparr>) = (r2, s2\<lparr>last_manual_run := t\<rparr>)"
    using h by (simp add: ingest_ssh_last)
  show ?thesis
    using n h n' h' by (simp add: run_ingestion_steps logger_last split: sum.splits)
qed

lemma run_ingestion_lock:
  "run_ingestion (s\<lparr>ingest_lock := b\<rparr>) =
     (fst (run_ingestion s), (snd (run_ingestion s))\<lparr>ingest_lock := b\<rparr>)"
proof -
  let ?s0 = "logger INFO ''Starting log ingestion'' s"
  obtain r1 s1 where n: "ingest_nginx_logs nginx_path ?s0 = (r1, s1)" by (cases "ingest_nginx_logs nginx_path ?s0")
  obtain r2 s2 where h: "ingest_ssh_logs ssh_path s1 = (r2, s2)" by (cases "ingest_ssh_logs ssh_path s1")
  have n': "ingest_nginx_logs nginx_path (logger INFO ''Starting log ingestion'' (s\<lparr>ingest_lock := b\<rparr>))
            = (r1, s1\<lparr>ingest_lock := b\<rparr>)"
    using n by (auto simp add: logger_def ingest_nginx_cases split: option.splits log_file.splits if_splits)
  have h': "ingest_ssh_logs ssh_path (s1\<lparr>ingest_lock := b\<rparr>) = (r2, s2\<lparr>ingest_lock := b\<rparr>)"
    using h by (auto simp add: ingest_ssh_cases split: option.splits log_file.splits if_splits)
  show ?thesis
    using n h n' h' by (simp add: run_ingestion_steps logger_def split: sum.splits)
qed




lemmas eval_simps =
  initial_state_def two_files_def run_ingestion_steps ingest_nginx_cases ingest_ssh_cases
  logger_def nginx_path_def ssh_path_def

section \<open>Claims about the manual trigger and the scheduler\<close>

text \<open>
  C1, as stated, fails in its last part: an admitted request does not always report
  success. When \<open>run_ingestion\<close> raises (here the store refuses the commit), the exception
  leaves \<open>manual_ingest\<close> and no status is returned.
\<close>

theorem manual_ingest_failure_counterexample:
  "\<not> (100 - last_manual_run (initial_state
          (two_files (Some (Reads [''1.2.3.4 - - [t +0] GET / HTTP/1.1 200 5''])) None) False) < 60)
   \<and> \<not> ingest_lock (initial_state
          (two_files (Some (Reads [''1.2.3.4 - - [t +0] GET / HTTP/1.1 200 5''])) None) False)
   \<and> fst (manual_ingest 100 (initial_state
          (two_files (Some (Reads [''1.2.3.4 - - [t +0] GET / HTTP/1.1 200 5''])) None) False))
       = Unhandled OperationalError"
  by (simp add: manual_ingest_def MANUAL_COOLDOWN_SECONDS_def acquire_def release_def eval_simps)

text \<open>
  C1, amended. The two gates are evaluated in a fixed order. With less than 60 seconds
  since \<open>_last_manual_run\<close> the request is rejected with status 429 and the state is
  unchanged, whatever the lock is. Otherwise, with the lock held, it is rejected with
  status 409 and the state is unchanged. Otherwise the lock is taken, \<open>_last_manual_run\<close>
  is set to \<open>now\<close>, \<open>run_ingestion\<close> runs from that state and ends with the lock still
  held, and the lock is released: the status is returned when \<open>run_ingestion\<close> returns,
  and its exception is passed on when it raises.
\<close>

theorem manual_ingest_gates:
  "(now - last_manual_run s < 60 \<longrightarrow>
      manual_ingest now s = (HTTPException 429 ''Ingest cooldown active (60s)'', s)
      \<and> fst (manual_ingest now (s\<lparr>ingest_lock := b\<rparr>)) =
          HTTPException 429 ''Ingest cooldown active (60s)'')
   \<and> (\<not> now - last_manual_run s < 60 \<and> ingest_lock s \<longrightarrow>
      manual_ingest now s = (HTTPException 409 ''Ingest already running'', s))
   \<and> (\<not> now - last_manual_run s < 60 \<and> \<not> ingest_lock s \<longrightarrow>
      manual_ingest now s =
        ((case fst (run_ingestion (s\<lparr>ingest_lock := True, last_manual_run := now\<rparr>)) of
            Inl e \<Rightarrow> Unhandled e
          | Inr u \<Rightarrow> Status ''ingestion triggered''),
         (snd (run_ingestion (s\<lparr>ingest_lock := True, last_manual_run := now\<rparr>)))
           \<lparr>ingest_lock := False\<rparr>)
      \<and> ingest_lock (snd (run_ingestion (s\<lparr>ingest_lock := True, last_manual_run := now\<rparr>)))
      \<and> last_manual_run (snd (manual_ingest now s)) = now
      \<and> \<not> ingest_lock (snd (manual_ingest now s)))"
proof (intro conjI impI)
  assume "now - last_manual_run s < 60"
  then show "manual_ingest now s = (HTTPException 429 ''Ingest cooldown active (60s)'', s)"
    by (simp add: manual_ingest_def MANUAL_COOLDOWN_SECONDS_def)
next
  assume "now - last_manual_run s < 60"
  then show "fst (manual_ingest now (s\<lparr>ingest_lock := b\<rparr>)) =
          HTTPException 429 ''Ingest cooldown active (60s)''"
    by (simp add: manual_ingest_def MANUAL_COOLDOWN_SECONDS_def)
next
  assume "\<not> now - last_manual_run s < 60 \<and> ingest_lock s"
  then show "manual_ingest now s = (HTTPException 409 ''Ingest already running'', s)"
    by (simp add: manual_ingest_def MANUAL_COOLDOWN_SECONDS_def)
next
  assume a: "\<not> now - last_manual_run s < 60 \<and> \<not> ingest_lock s"
  let ?s0 = "s\<lparr>ingest_lock := True, last_manual_run := now\<rparr>"
  show m: "manual_ingest now s =
        ((case fst (run_ingestion ?s0) of
            Inl e \<Rightarrow> Unhandled e
          | Inr u \<Rightarrow> Status ''ingestion triggered''),
         (snd (run_ingestion ?s0))\<lparr>ingest_lock := False\<rparr>)"
    using a
    by (cases "run_ingestion ?s0")
       (simp add: manual_ingest_def MANUAL_COOLDOWN_SECONDS_def acquire_def release_def
             split: sum.splits)
  show "ingest_lock (snd (run_ingestion ?s0))"
    by (simp add: run_ingestion_frame)
  show "last_manual_run (snd (manual_ingest now s)) = now"
    by (simp add: m run_ingestion_frame)
  show "\<not> ingest_lock (snd (manual_ingest now s))"
    by (simp add: m)
qed

theorem manual_ingest_gates_witness:
  "fst (manual_ingest 100 ((initial_state (two_files None None) True)\<lparr>last_manual_run := 50\<rparr>))
     = HTTPException 429 ''Ingest cooldown active (60s)''
   \<and> fst (manual_ingest 100 ((initial_state (two_files None None) True)\<lparr>ingest_lock := True\<rparr>))
     = HTTPException 409 ''Ingest already running''
   \<and> fst (manual_ingest 100 (initial_state (two_files None None) True))
     = Status ''ingestion triggered''
   \<and> last_manual_run (snd (manual_ingest 100 (initial_state (two_files None None) True))) = 100"
proof -
  let ?s = "initial_state (two_files None None) True"
  have h1: "(100::real) - last_manual_run (?s\<lparr>last_manual_run := 50\<rparr>) < 60" by simp
  have h2: "\<not> (100::real) - last_manual_run (?s\<lparr>ingest_lock := True\<rparr>) < 60
            \<and> ingest_lock (?s\<lparr>ingest_lock := True\<rparr>)"
    by (simp add: initial_state_def)
  have h3: "\<not> (100::real) - last_manual_run ?s < 60 \<and> \<not> ingest_lock ?s"
    by (simp add: initial_state_def)
  have r: "fst (run_ingestion (?s\<lparr>ingest_lock := True, last_manual_run := 100\<rparr>)) = Inr ()"
    by (simp add: eval_simps)
  have a: "fst (manual_ingest 100 (?s\<lparr>last_manual_run := 50\<rparr>))
             = HTTPException 429 ''Ingest cooldown active (60s)''"
  proof -
    from manual_ingest_gates [where now = 100 and s = "?s\<lparr>last_manual_run := 50\<rparr>"] h1
    have "manual_ingest 100 (?s\<lparr>last_manual_run := 50\<rparr>) =
            (HTTPException 429 ''Ingest cooldown active (60s)'', ?s\<lparr>last_manual_run := 50\<rparr>)"
      by blast
    then show ?thesis by simp
  qed
  have b: "fst (manual_ingest 100 (?s\<lparr>ingest_lock := True\<rparr>))
             = HTTPException 409 ''Ingest already running''"
  proof -
    from manual_ingest_gates [where now = 100 and s = "?s\<lparr>ingest_lock := True\<rparr>"] h2
    have "manual_ingest 100 (?s\<lparr>ingest_lock := True\<rparr>) =
            (HTTPException 409 ''Ingest already running'', ?s\<lparr>ingest_lock := True\<rparr>)"
      by blast
    then show ?thesis by simp
  qed
  have c: "fst (manual_ingest 100 ?s) = Status ''ingestion triggered''
           \<and> last_manual_run (snd (manual_ingest 100 ?s)) = 100"
  proof -
    from manual_ingest_gates [where now = 100 and s = ?s] h3
    have "manual_ingest 100 ?s =
        ((case fst (run_ingestion (?s\<lparr>ingest_lock := True, last_manual_run := 100\<rparr>)) of
            Inl e \<Rightarrow> Unhandled e
          | Inr u \<Rightarrow> Status ''ingestion triggered''),
         (snd (run_ingestion (?s\<lparr>ingest_lock := True, last_manual_run := 100\<rparr>)))
           \<lparr>ingest_lock := False\<rparr>)"
      and l: "last_manual_run (snd (manual_ingest 100 ?s)) = 100"
      by blast+
    then have "fst (manual_ingest 100 ?s) = Status ''ingestion triggered''"
      by (simp add: r)
    with l show ?thesis by simp
  qed
  show ?thesis using a b c by simp
qed

text \<open>
  C2. One round of the scheduled loop does not look at \<open>_last_manual_run\<close>: with another
  value there, the round has the same outcome and reaches the same state up to that
  value; whether it runs depends on the lock only. The round leaves \<open>_last_manual_run\<close> as
  it was, and so does a rejected manual request.
\<close>

theorem scheduled_round_ignores_cooldown:
  "ingestion_loop_round (s\<lparr>last_manual_run := t\<rparr>) =
     map_option (\<lambda>(r, s'). (r, s'\<lparr>last_manual_run := t\<rparr>)) (ingestion_loop_round s)
   \<and> (ingestion_loop_round s = None \<longleftrightarrow> ingest_lock s)
   \<and> (ingestion_loop_round s = Some (r, s') \<longrightarrow> last_manual_run s' = last_manual_run s)
   \<and> (fst (manual_ingest now s) = HTTPException c d \<longrightarrow>
        last_manual_run (snd (manual_ingest now s)) = last_manual_run s)"
proof (intro conjI impI)
  have "acquire (s\<lparr>last_manual_run := t\<rparr>) = (acquire s)\<lparr>last_manual_run := t\<rparr>"
    by (simp add: acquire_def)
  then show "ingestion_loop_round (s\<lparr>last_manual_run := t\<rparr>) =
     map_option (\<lambda>(r, s'). (r, s'\<lparr>last_manual_run := t\<rparr>)) (ingestion_loop_round s)"
    by (simp add: ingestion_loop_round_def run_ingestion_last release_def split: prod.splits)
next
  show "ingestion_loop_round s = None \<longleftrightarrow> ingest_lock s"
    by (simp add: ingestion_loop_round_def split: prod.splits)
next
  assume "ingestion_loop_round s = Some (r, s')"
  then have "s' = release (snd (run_ingestion (acquire s)))"
    by (auto simp add: ingestion_loop_round_def split: if_splits prod.splits)
  then show "last_manual_run s' = last_manual_run s"
    by (simp add: release_def run_ingestion_frame acquire_def)
next
  assume "fst (manual_ingest now s) = HTTPException c d"
  then show "last_manual_run (snd (manual_ingest now s)) = last_manual_run s"
    by (auto simp add: manual_ingest_def split: if_splits prod.splits sum.splits)
qed

theorem scheduled_round_ignores_cooldown_witness:
  "fst (manual_ingest 100 (initial_state (two_files None None) True))
     = Status ''ingestion triggered''
   \<and> ingestion_loop_round (snd (manual_ingest 100 (initial_state (two_files None None) True)))
       \<noteq> None
   \<and> last_manual_run (snd (the (ingestion_loop_round
         (snd (manual_ingest 100 (initial_state (two_files None None) True)))))) = 100
   \<and> fst (manual_ingest 130 (snd (manual_ingest 100 (initial_state (two_files None None) True))))
       = HTTPException 429 ''Ingest cooldown active (60s)''
   \<and> last_manual_run (snd (manual_ingest 130
         (snd (manual_ingest 100 (initial_state (two_files None None) True))))) = 100"
proof -
  let ?s = "initial_state (two_files None None) True"
  let ?s1 = "snd (manual_ingest 100 ?s)"
  have m: "fst (manual_ingest 100 ?s) = Status ''ingestion triggered''"
    and l: "last_manual_run ?s1 = 100" and k: "\<not> ingest_lock ?s1"
    by (simp_all add: manual_ingest_def MANUAL_COOLDOWN_SECONDS_def acquire_def release_def
          eval_simps)
  have ne: "ingestion_loop_round ?s1 \<noteq> None"
    using scheduled_round_ignores_cooldown [where s = ?s1] k by simp
  then have e: "ingestion_loop_round ?s1 =
      Some (fst (the (ingestion_loop_round ?s1)), snd (the (ingestion_loop_round ?s1)))"
    by auto
  have a: "last_manual_run (snd (the (ingestion_loop_round ?s1))) = last_manual_run ?s1"
    using scheduled_round_ignores_cooldown
      [where s = ?s1 and r = "fst (the (ingestion_loop_round ?s1))"
         and s' = "snd (the (ingestion_loop_round ?s1))"] e
    by blast
  have j: "fst (manual_ingest 130 ?s1) = HTTPException 429 ''Ingest cooldown active (60s)''"
    using l by (simp add: manual_ingest_def MANUAL_COOLDOWN_SECONDS_def)
  have b: "last_manual_run (snd (manual_ingest 130 ?s1)) = last_manual_run ?s1"
    using scheduled_round_ignores_cooldown
      [where s = ?s1 and now = 130 and c = 429 and d = "''Ingest cooldown active (60s)''"] j
    by blast
  show ?thesis using m l ne a j b by simp
qed

section \<open>Claims about the ingestion pass\<close>

text \<open>
  C5, as stated, fails: when the web-access log cannot be opened, \<open>run_ingestion\<close> ends
  with that exception and stores nothing from the auth log, although ingesting the auth
  log from the same state would store a row.
\<close>

theorem run_ingestion_nginx_failure_counterexample:
  "fst (run_ingestion (initial_state
      (two_files (Some OpenFails)
         (Some (Reads [''Accepted password for alice from 10.0.0.5 port 22''])))
      True)) = Inl OSError
   \<and> ssh_logs (snd (run_ingestion (initial_state
      (two_files (Some OpenFails)
         (Some (Reads [''Accepted password for alice from 10.0.0.5 port 22''])))
      True))) = []
   \<and> length (ssh_logs (snd (ingest_ssh_logs ssh_path (initial_state
      (two_files (Some OpenFails)
         (Some (Reads [''Accepted password for alice from 10.0.0.5 port 22''])))
      True)))) = 1"
proof -
  have p: "parse_ssh_log_line ''Accepted password for alice from 10.0.0.5 port 22'' \<noteq> None"
    by code_simp
  show ?thesis
    using p by (auto simp add: eval_simps List.map_filter_simps)
qed

text \<open>
  C5, amended. When ingesting the web-access log raises, \<open>run_ingestion\<close> ends with that
  exception in the state the web-access ingestion left: the auth log is not ingested (its
  table is unchanged) and nothing is logged after the start event.
\<close>

theorem run_ingestion_nginx_failure:
  "fst (ingest_nginx_logs nginx_path (logger INFO ''Starting log ingestion'' s)) = Inl e \<Longrightarrow>
     run_ingestion s =
       (Inl e, snd (ingest_nginx_logs nginx_path (logger INFO ''Starting log ingestion'' s)))
     \<and> ssh_logs (snd (run_ingestion s)) = ssh_logs s
     \<and> logged (snd (run_ingestion s)) = logged s @ [(INFO, ''Starting log ingestion'')]"
proof -
  let ?s0 = "logger INFO ''Starting log ingestion'' s"
  assume a: "fst (ingest_nginx_logs nginx_path ?s0) = Inl e"
  obtain r1 s1 where n: "ingest_nginx_logs nginx_path ?s0 = (r1, s1)"
    by (cases "ingest_nginx_logs nginx_path ?s0")
  with a have r1: "r1 = Inl e" by simp
  have run: "run_ingestion s = (Inl e, s1)"
    using n r1 by (simp add: run_ingestion_steps)
  have ssh: "ssh_logs s1 = ssh_logs s"
    using ingest_nginx_frame(3) [of nginx_path ?s0] n by simp
  have lg: "logged s1 = logged s @ [(INFO, ''Starting log ingestion'')]"
    using n r1
    by (auto simp add: ingest_nginx_cases logger_def split: option.splits log_file.splits if_splits)
  show ?thesis using run n ssh lg by simp
qed

theorem run_ingestion_nginx_failure_witness:
  "fst (ingest_nginx_logs nginx_path (logger INFO ''Starting log ingestion''
      (initial_state (two_files (Some (ReadsThenFails [])) None) True))) = Inl OSError
   \<and> fst (run_ingestion (initial_state (two_files (Some (ReadsThenFails [])) None) True))
       = Inl OSError
   \<and> logged (snd (run_ingestion (initial_state (two_files (Some (ReadsThenFails [])) None) True)))
       = [(INFO, ''Starting log ingestion'')]"
proof -
  let ?s = "initial_state (two_files (Some (ReadsThenFails [])) None) True"
  have h: "fst (ingest_nginx_logs nginx_path (logger INFO ''Starting log ingestion'' ?s))
             = Inl OSError"
    by (simp add: eval_simps)
  have l: "logged ?s = []" by (simp add: initial_state_def)
  from run_ingestion_nginx_failure [OF h]
  have r: "run_ingestion ?s =
        (Inl OSError, snd (ingest_nginx_logs nginx_path (logger INFO ''Starting log ingestion'' ?s)))"
    and g: "logged (snd (run_ingestion ?s)) = logged ?s @ [(INFO, ''Starting log ingestion'')]"
    by blast+
  from r have f: "fst (run_ingestion ?s) = Inl OSError" by simp
  from g l have "logged (snd (run_ingestion ?s)) = [(INFO, ''Starting log ingestion'')]"
    by simp
  with h f show ?thesis by blast
qed

text \<open>
  C6, as stated, fails: when the read of the file fails, the session that was opened
  before is not closed.
\<close>

theorem ingest_session_counterexample:
  "fst (ingest_nginx_logs nginx_path
          (initial_state (two_files (Some (ReadsThenFails [])) None) True)) = Inl OSError
   \<and> open_sessions (initial_state (two_files (Some (ReadsThenFails [])) None) True) = 0
   \<and> open_sessions (snd (ingest_nginx_logs nginx_path
          (initial_state (two_files (Some (ReadsThenFails [])) None) True))) = 1"
  by (simp add: eval_simps)

text \<open>
  C6, amended. Both ingestion functions give the file handle back on every path. They
  close the store session when they return; when they raise, the session they opened
  stays open.
\<close>

theorem ingest_releases:
  "open_files (snd (ingest_nginx_logs p s)) = open_files s
   \<and> open_files (snd (ingest_ssh_logs p s)) = open_files s
   \<and> (fst (ingest_nginx_logs p s) = Inr () \<longrightarrow>
        open_sessions (snd (ingest_nginx_logs p s)) = open_sessions s)
   \<and> (fst (ingest_ssh_logs p s) = Inr () \<longrightarrow>
        open_sessions (snd (ingest_ssh_logs p s)) = open_sessions s)
   \<and> (fst (ingest_nginx_logs p s) = Inl e \<longrightarrow>
        open_sessions (snd (ingest_nginx_logs p s)) = open_sessions s + 1)
   \<and> (fst (ingest_ssh_logs p s) = Inl e \<longrightarrow>
        open_sessions (snd (ingest_ssh_logs p s)) = open_sessions s + 1)"
  by (auto simp add: ingest_nginx_cases ingest_ssh_cases
        split: option.splits log_file.splits if_splits)

theorem ingest_releases_witness:
  "fst (ingest_nginx_logs nginx_path
          (initial_state (two_files (Some (Reads [])) (Some OpenFails)) True)) = Inr ()
   \<and> open_sessions (snd (ingest_nginx_logs nginx_path
          (initial_state (two_files (Some (Reads [])) (Some OpenFails)) True))) = 0
   \<and> fst (ingest_ssh_logs ssh_path
          (initial_state (two_files (Some (Reads [])) (Some OpenFails)) True)) = Inl OSError
   \<and> open_sessions (snd (ingest_ssh_logs ssh_path
          (initial_state (two_files (Some (Reads [])) (Some OpenFails)) True))) = 1
   \<and> fst (ingest_ssh_logs nginx_path
          (initial_state (two_files (Some (Reads [])) (Some OpenFails)) True)) = Inr ()
   \<and> open_sessions (snd (ingest_ssh_logs nginx_path
          (initial_state (two_files (Some (Reads [])) (Some OpenFails)) True))) = 0
   \<and> fst (ingest_nginx_logs ssh_path
          (initial_state (two_files (Some (Reads [])) (Some OpenFails)) True)) = Inl OSError
   \<and> open_sessions (snd (ingest_nginx_logs ssh_path
          (initial_state (two_files (Some (Reads [])) (Some OpenFails)) True))) = 1"
proof -
  let ?s = "initial_state (two_files (Some (Reads [])) (Some OpenFails)) True"
  have z: "open_sessions ?s = 0" by (simp add: initial_state_def)
  have a: "fst (ingest_nginx_logs nginx_path ?s) = Inr ()"
    and b: "fst (ingest_ssh_logs ssh_path ?s) = Inl OSError"
    and c: "fst (ingest_ssh_logs nginx_path ?s) = Inr ()"
    and d: "fst (ingest_nginx_logs ssh_path ?s) = Inl OSError"
    by (simp_all add: eval_simps)
  from ingest_releases [where p = nginx_path and s = ?s] a
  have a': "open_sessions (snd (ingest_nginx_logs nginx_path ?s)) = open_sessions ?s"
    by blast
  from ingest_releases [where p = ssh_path and s = ?s and e = OSError] b
  have b': "open_sessions (snd (ingest_ssh_logs ssh_path ?s)) = open_sessions ?s + 1"
    by blast
  from ingest_releases [where p = nginx_path and s = ?s] c
  have c': "open_sessions (snd (ingest_ssh_logs nginx_path ?s)) = open_sessions ?s"
    by blast
  from ingest_releases [where p = ssh_path and s = ?s and e = OSError] d
  have d': "open_sessions (snd (ingest_nginx_logs ssh_path ?s)) = open_sessions ?s + 1"
    by blast
  show ?thesis using a b c d a' b' c' d' z by simp
qed



text \<open>
  C8. When the file is absent, an ingestion function logs a warning and returns: its
  table is unchanged and nothing is raised. In \<open>run_ingestion\<close>, an absent web-access log
  is followed by the ingestion of the auth log, and an absent auth log after a web-access
  ingestion that returned ends the run without an exception.
\<close>

theorem ingest_missing_file:
  "(files s p = None \<longrightarrow>
      ingest_nginx_logs p s =
        (Inr (), s\<lparr>logged := logged s @ [(WARNING, ''Nginx log not found: '' @ p)]\<rparr>)
      \<and> nginx_logs (snd (ingest_nginx_logs p s)) = nginx_logs s
      \<and> ingest_ssh_logs p s =
        (Inr (), s\<lparr>logged := logged s @ [(WARNING, ''SSH log not found: '' @ p)]\<rparr>)
      \<and> ssh_logs (snd (ingest_ssh_logs p s)) = ssh_logs s)
   \<and> (files s nginx_path = None \<longrightarrow>
      run_ingestion s =
        then_run (ingest_ssh_logs ssh_path
                    (s\<lparr>logged := logged s @ [(INFO, ''Starting log ingestion''),
                           (WARNING, ''Nginx log not found: '' @ nginx_path)]\<rparr>))
          (\<lambda>u s2. (Inr (), logger INFO ''Log ingestion finished'' s2)))
   \<and> (files s ssh_path = None \<and>
       fst (ingest_nginx_logs nginx_path (logger INFO ''Starting log ingestion'' s)) = Inr () \<longrightarrow>
      run_ingestion s =
        (Inr (),
         logger INFO ''Log ingestion finished''
           (logger WARNING (''SSH log not found: '' @ ssh_path)
              (snd (ingest_nginx_logs nginx_path (logger INFO ''Starting log ingestion'' s))))))"
proof (intro conjI impI)
  assume "files s p = None"
  then show "ingest_nginx_logs p s =
        (Inr (), s\<lparr>logged := logged s @ [(WARNING, ''Nginx log not found: '' @ p)]\<rparr>)"
    and "nginx_logs (snd (ingest_nginx_logs p s)) = nginx_logs s"
    and "ingest_ssh_logs p s =
        (Inr (), s\<lparr>logged := logged s @ [(WARNING, ''SSH log not found: '' @ p)]\<rparr>)"
    and "ssh_logs (snd (ingest_ssh_logs p s)) = ssh_logs s"
    by (simp_all add: ingest_nginx_cases ingest_ssh_cases)
next
  assume "files s nginx_path = None"
  then show "run_ingestion s =
        then_run (ingest_ssh_logs ssh_path
                    (s\<lparr>logged := logged s @ [(INFO, ''Starting log ingestion''),
                           (WARNING, ''Nginx log not found: '' @ nginx_path)]\<rparr>))
          (\<lambda>u s2. (Inr (), logger INFO ''Log ingestion finished'' s2))"
    by (simp add: run_ingestion_def ingest_nginx_cases logger_def)
next
  let ?s0 = "logger INFO ''Starting log ingestion'' s"
  assume a: "files s ssh_path = None \<and> fst (ingest_nginx_logs nginx_path ?s0) = Inr ()"
  obtain r1 s1 where n: "ingest_nginx_logs nginx_path ?s0 = (r1, s1)"
    by (cases "ingest_nginx_logs nginx_path ?s0")
  with a have r1: "r1 = Inr ()" by simp
  have "files s1 = files s"
    using ingest_nginx_frame(1) [of nginx_path ?s0] n by simp
  with a have "files s1 ssh_path = None" by simp
  then show "run_ingestion s =
        (Inr (),
         logger INFO ''Log ingestion finished''
           (logger WARNING (''SSH log not found: '' @ ssh_path)
              (snd (ingest_nginx_logs nginx_path ?s0))))"
    using n r1 by (simp add: run_ingestion_steps ingest_ssh_cases logger_def)
qed

theorem ingest_missing_file_witness:
  "files (initial_state (two_files None None) True) nginx_path = None
   \<and> files (initial_state (two_files None None) True) ssh_path = None
   \<and> fst (ingest_nginx_logs nginx_path (initial_state (two_files None None) True)) = Inr ()
   \<and> fst (ingest_ssh_logs ssh_path (initial_state (two_files None None) True)) = Inr ()
   \<and> fst (run_ingestion (initial_state (two_files None None) True)) = Inr ()
   \<and> nginx_logs (snd (ingest_nginx_logs nginx_path (initial_state (two_files None None) True)))
       = nginx_logs (initial_state (two_files None None) True)
   \<and> ssh_logs (snd (ingest_ssh_logs ssh_path (initial_state (two_files None None) True)))
       = ssh_logs (initial_state (two_files None None) True)"
proof -
  let ?s = "initial_state (two_files None None) True"
  have n: "files ?s nginx_path = None" and h: "files ?s ssh_path = None"
    by (simp_all add: initial_state_def two_files_def)
  from ingest_missing_file [where s = ?s and p = nginx_path] n
  have a: "ingest_nginx_logs nginx_path ?s =
        (Inr (), ?s\<lparr>logged := logged ?s @ [(WARNING, ''Nginx log not found: '' @ nginx_path)]\<rparr>)"
    and a': "nginx_logs (snd (ingest_nginx_logs nginx_path ?s)) = nginx_logs ?s"
    by blast+
  from ingest_missing_file [where s = ?s and p = ssh_path] h
  have b: "ingest_ssh_logs ssh_path ?s =
        (Inr (), ?s\<lparr>logged := logged ?s @ [(WARNING, ''SSH log not found: '' @ ssh_path)]\<rparr>)"
    and b': "ssh_logs (snd (ingest_ssh_logs ssh_path ?s)) = ssh_logs ?s"
    by blast+
  have g: "fst (ingest_nginx_logs nginx_path (logger INFO ''Starting log ingestion'' ?s)) = Inr ()"
    by (simp add: eval_simps)
  from ingest_missing_file [where s = ?s and p = ssh_path] h g
  have "run_ingestion ?s =
        (Inr (),
         logger INFO ''Log ingestion finished''
           (logger WARNING (''SSH log not found: '' @ ssh_path)
              (snd (ingest_nginx_logs nginx_path (logger INFO ''Starting log ingestion'' ?s)))))"
    by blast
  then have c: "fst (run_ingestion ?s) = Inr ()" by simp
  from a have a1: "fst (ingest_nginx_logs nginx_path ?s) = Inr ()" by simp
  from b have b1: "fst (ingest_ssh_logs ssh_path ?s) = Inr ()" by simp
  show ?thesis using n h a1 b1 c a' b' by blast
qed

end
